theory Spec2Isabelle
  imports Complex_Main "HOL-Library.Sublist"
begin

section \<open>Python strings\<close>

text \<open>
  A Python \<open>str\<close> is modelled as a \<open>string\<close> whose characters are the code points
  below 256. The builtins used by the sources are given on this type:
  \<open>str.isspace\<close> / the regular expression class \<open>\s\<close> (they use the same table),
  \<open>str.replace\<close>, \<open>re.sub(r'\s+', ' ', _)\<close>, \<open>str.strip()\<close>, \<open>str.lower()\<close>
  and \<open>str.endswith\<close>.
\<close>

abbreviation TAB :: char where "TAB \<equiv> CHR 0x09"
abbreviation NL :: char where "NL \<equiv> CHR 0x0A"
abbreviation SPC :: char where "SPC \<equiv> CHR 0x20"
abbreviation BACKSLASH :: char where "BACKSLASH \<equiv> CHR 0x5C"

definition is_space :: "char \<Rightarrow> bool" where
  "is_space c \<longleftrightarrow> c \<in> set [CHR 0x09, CHR 0x0A, CHR 0x0B, CHR 0x0C, CHR 0x0D,
       CHR 0x1C, CHR 0x1D, CHR 0x1E, CHR 0x1F, CHR 0x20, CHR 0x85, CHR 0xA0]"

text \<open>
  \<open>s.replace(old, new)\<close>: the occurrences of \<open>old\<close> are found from the left and do not
  overlap; an empty \<open>old\<close> matches before every character and at the end.
\<close>

fun replace_from :: "string \<Rightarrow> string \<Rightarrow> string \<Rightarrow> string" where
  "replace_from old new [] = []"
| "replace_from old new (c # cs) =
     (if old \<noteq> [] \<and> prefix old (c # cs)
      then new @ replace_from old new (drop (length old) (c # cs))
      else c # replace_from old new cs)"

definition str_replace :: "string \<Rightarrow> string \<Rightarrow> string \<Rightarrow> string" where
  "str_replace old new s =
     (if old = [] then new @ concat (map (\<lambda>c. c # new) s) else replace_from old new s)"

text \<open>
  \<open>squeeze Q s\<close> replaces every maximal run of characters satisfying \<open>Q\<close> by one space;
  \<open>re.sub(r'\s+', ' ', text)\<close> is the instance for whitespace.
\<close>

function squeeze :: "(char \<Rightarrow> bool) \<Rightarrow> string \<Rightarrow> string" where
  "squeeze Q [] = []"
| "squeeze Q (c # cs) =
     (if Q c then SPC # squeeze Q (dropWhile Q cs) else c # squeeze Q cs)"
  by pat_completeness auto
termination
  by (relation "measure (\<lambda>(Q, s). length s)") (auto simp: less_Suc_eq_le length_dropWhile_le)

definition re_sub_whitespace :: "string \<Rightarrow> string" where
  "re_sub_whitespace text = squeeze is_space text"

text \<open>\<open>str.lstrip()\<close>, \<open>str.rstrip()\<close> and \<open>str.strip()\<close> without argument remove the
  leading, the trailing, and the leading and trailing whitespace.\<close>

definition lstrip :: "string \<Rightarrow> string" where
  "lstrip s = dropWhile is_space s"

definition rstrip :: "string \<Rightarrow> string" where
  "rstrip s = rev (dropWhile is_space (rev s))"

definition strip :: "string \<Rightarrow> string" where
  "strip s = rstrip (lstrip s)"

text \<open>\<open>str.lower()\<close> on code points below 256: A-Z and the accented capitals except the
  multiplication sign move up by 32, everything else is unchanged.\<close>

definition lower_char :: "char \<Rightarrow> char" where
  "lower_char c =
     (let n = (of_char c :: nat)
      in if (65 \<le> n \<and> n \<le> 90) \<or> (192 \<le> n \<and> n \<le> 222 \<and> n \<noteq> 215)
         then char_of (n + 32) else c)"

definition str_lower :: "string \<Rightarrow> string" where
  "str_lower s = map lower_char s"

definition endswith :: "string \<Rightarrow> string \<Rightarrow> bool" where
  "endswith s suffix_str = suffix suffix_str s"

text \<open>\<open>str.upper()\<close> restricted to ASCII strings, where it is a map on characters. On
  arbitrary strings \<open>str.upper()\<close> may lengthen the string or leave the code points
  below 256, and the functions that call it take it as a parameter.\<close>

definition ascii_upper :: "string \<Rightarrow> string" where
  "ascii_upper s =
     map (\<lambda>c. let n = (of_char c :: nat) in if 97 \<le> n \<and> n \<le> 122 then char_of (n - 32) else c) s"

definition count_newlines :: "string \<Rightarrow> nat" where
  "count_newlines s = count_list s NL"

text \<open>The placeholder that \<open>clean_prompt\<close> puts in the place of the newlines.\<close>

abbreviation PLACEHOLDER :: string where "PLACEHOLDER \<equiv> ''<NEWLINE>''"


section \<open>Prompt normalizer (utils/prompt\_utils.py)\<close>

definition clean_prompt :: "string \<Rightarrow> bool \<Rightarrow> bool \<Rightarrow> bool \<Rightarrow> string" where
  "clean_prompt prompt remove_backslashes collapse_whitespace preserve_newlines =
     (if prompt = [] then []
      else
        let text = prompt;
            text = (if remove_backslashes then str_replace [BACKSLASH] [] text else text);
            text = str_replace [TAB] [SPC] text;
            text = (if collapse_whitespace then
                      (if preserve_newlines then
                         str_replace ''<NEWLINE>'' [NL]
                           (re_sub_whitespace (str_replace [NL] ''<NEWLINE>'' text))
                       else re_sub_whitespace text)
                    else text)
        in strip text)"

text \<open>The reading of the input that the specification compares with: runs of tabs and
  spaces collapsed to one space, newlines untouched.\<close>

definition collapse_tabs_spaces :: "string \<Rightarrow> string" where
  "collapse_tabs_spaces s = squeeze (\<lambda>c. c = TAB \<or> c = SPC) s"

text \<open>Whitespace other than the newline: what the collapse still sees as whitespace once
  the newlines are replaced by the placeholder.\<close>

definition sp_not_nl :: "char \<Rightarrow> bool" where
  "sp_not_nl c \<longleftrightarrow> is_space c \<and> c \<noteq> NL"


section \<open>Exceptions\<close>

datatype exn =
    KeyError string
  | IndexError
  | ValueError string
  | NotImplementedError string
  | FileNotFoundError
  | ClientError string
  | OtherError string


section \<open>Model gateway (utils/llm\_utils.py)\<close>

record model_cfg =
  model_name :: "string option"
  model_params :: "(string \<rightharpoonup> real) option"

record client_cfg =
  name :: string
  openai :: "model_cfg option"
  bedrock :: "model_cfg option"
  gemini :: "model_cfg option"

datatype llm_client =
    ChatOpenAI string real real real real
  | ChatBedrockConverse string real real
  | ChatGoogleGenerativeAI string real real

definition getitem :: "'a option \<Rightarrow> string \<Rightarrow> exn + 'a" where
  "getitem v k = (case v of None \<Rightarrow> Inl (KeyError k) | Some x \<Rightarrow> Inr x)"

definition dict_get :: "(string \<rightharpoonup> real) \<Rightarrow> string \<Rightarrow> real \<Rightarrow> real" where
  "dict_get d k dflt = (case d k of None \<Rightarrow> dflt | Some v \<Rightarrow> v)"

text \<open>\<open>initialize_llm\<close>: \<open>client_cfg\<close> is the value of
  \<open>config["llm_config"]["client"]\<close>, \<open>upper\<close> is \<open>str.upper\<close>.\<close>

definition bind_exn :: "exn + 'a \<Rightarrow> ('a \<Rightarrow> exn + 'b) \<Rightarrow> exn + 'b" where
  "bind_exn r f = (case r of Inl e \<Rightarrow> Inl e | Inr x \<Rightarrow> f x)"

definition initialize_llm :: "(string \<Rightarrow> string) \<Rightarrow> client_cfg \<Rightarrow> exn + llm_client" where
  "initialize_llm upper cfg =
     (let client_name = upper (name cfg) in
      if client_name = ''OPENAI'' then
        bind_exn (getitem (openai cfg) ''openai'') (\<lambda>mc.
        bind_exn (getitem (model_name mc) ''model_name'') (\<lambda>m.
        bind_exn (getitem (model_params mc) ''model_params'') (\<lambda>p.
          Inr (ChatOpenAI m (dict_get p ''temperature'' 0) (dict_get p ''max_retries'' 3)
                 (dict_get p ''max_output_tokens'' 2048) (dict_get p ''top_p'' 1)))))
      else if client_name = ''BEDROCK'' then
        bind_exn (getitem (bedrock cfg) ''bedrock'') (\<lambda>mc.
        bind_exn (getitem (model_name mc) ''model_name'') (\<lambda>m.
        bind_exn (getitem (model_params mc) ''model_params'') (\<lambda>p.
          Inr (ChatBedrockConverse m (dict_get p ''temperature'' 0)
                 (dict_get p ''max_gen_len'' 2048)))))
      else if client_name = ''GEMINI'' then
        bind_exn (getitem (gemini cfg) ''gemini'') (\<lambda>mc.
        bind_exn (getitem (model_name mc) ''model_name'') (\<lambda>m.
        bind_exn (getitem (model_params mc) ''model_params'') (\<lambda>p.
          Inr (ChatGoogleGenerativeAI m (dict_get p ''temperature'' 0)
                 (dict_get p ''max_output_tokens'' 2048)))))
      else if client_name = ''SLIP'' then
        Inl (NotImplementedError ''SLIP client not implemented yet.'')
      else Inl (ValueError (''Unsupported LLM client: '' @ client_name)))"


section \<open>Conversation (chatbot/memory.py, graph.py, nodes/generate.py, service.py)\<close>

datatype message =
    is_HumanMessage: HumanMessage (content: string)
  | is_AIMessage: AIMessage (content: string)

record ChatState =
  messages :: "message list"

text \<open>
  The nodes append to the message list in place, so a step yields its outcome together
  with the state object as the step leaves it: the outcome is \<open>Inl e\<close> when the step
  raises \<open>e\<close>, and on \<open>Inr ()\<close> the returned state is that state object.
  \<open>llm\<close> is \<open>llm.invoke\<close>, \<open>generation_chain\<close> is \<open>generation_chain.invoke\<close> applied to
  the question.
\<close>

definition chatbot_node :: "(message list \<Rightarrow> exn + message) \<Rightarrow> ChatState \<Rightarrow> (exn + unit) \<times> ChatState" where
  "chatbot_node llm st =
     (case llm (messages st) of
        Inl e \<Rightarrow> (Inl e, st)
      | Inr response \<Rightarrow> (Inr (), st\<lparr>messages := messages st @ [response]\<rparr>))"

text \<open>The answer of the generation chain: an object with a \<open>content\<close> attribute, or any
  other object, given by its \<open>str()\<close>.\<close>

datatype chain_response = WithContent string | Plain string

fun response_content :: "chain_response \<Rightarrow> string" where
  "response_content (WithContent c) = c"
| "response_content (Plain s) = s"

definition generate_node :: "(string \<Rightarrow> exn + chain_response) \<Rightarrow> ChatState \<Rightarrow> (exn + unit) \<times> ChatState" where
  "generate_node generation_chain st =
     (if messages st = [] then (Inl IndexError, st)
      else
        let question = content (last (messages st)) in
        case generation_chain question of
          Inl e \<Rightarrow> (Inl e, st)
        | Inr response \<Rightarrow>
            (Inr (), st\<lparr>messages := messages st @ [AIMessage (response_content response)]\<rparr>))"

text \<open>The compiled graph has the single node \<open>chatbot\<close> as entry and finish point.\<close>

definition app_invoke :: "(message list \<Rightarrow> exn + message) \<Rightarrow> ChatState \<Rightarrow> (exn + unit) \<times> ChatState" where
  "app_invoke llm st = chatbot_node llm st"

record ChatbotService =
  state :: ChatState

definition ChatbotService_init :: ChatbotService where
  "ChatbotService_init = \<lparr>state = \<lparr>messages = []\<rparr>\<rparr>"

definition chat :: "(message list \<Rightarrow> exn + message) \<Rightarrow> ChatbotService \<Rightarrow> string \<Rightarrow> (exn + string) \<times> ChatbotService" where
  "chat llm self user_input =
     (let st1 = (state self)\<lparr>messages := messages (state self) @ [HumanMessage user_input]\<rparr> in
      case app_invoke llm st1 of
        (Inl e, st2) \<Rightarrow> (Inl e, self\<lparr>state := st2\<rparr>)
      | (Inr u, st2) \<Rightarrow>
          (if messages st2 = [] then (Inl IndexError, self\<lparr>state := st2\<rparr>)
           else (Inr (content (last (messages st2))), self\<lparr>state := st2\<rparr>)))"

definition reset :: "ChatbotService \<Rightarrow> ChatbotService" where
  "reset self = self\<lparr>state := \<lparr>messages = []\<rparr>\<rparr>"


section \<open>Object store helper (utils/s3\_utils.py)\<close>

record S3Utils =
  bucket_name :: string

text \<open>A page of the \<open>list_objects_v2\<close> paginator: the keys of its \<open>Contents\<close> entry, which
  is absent when the page lists no object. \<open>paginate\<close> gives the pages for a bucket and
  a prefix.\<close>

type_synonym page = "string list option"

definition page_contents :: "page \<Rightarrow> string list" where
  "page_contents p = (case p of None \<Rightarrow> [] | Some ks \<Rightarrow> ks)"

definition list_files_with_ext ::
  "(string \<Rightarrow> string \<Rightarrow> page list) \<Rightarrow> S3Utils \<Rightarrow> string \<Rightarrow> string list option \<Rightarrow> string list" where
  "list_files_with_ext paginate self pfx extensions =
     foldl (\<lambda>output_files pg.
              if extensions = None \<or> extensions = Some [] then output_files @ page_contents pg
              else output_files @
                   filter (\<lambda>k. list_ex (\<lambda>ext. endswith (str_lower k) (str_lower ext)) (the extensions))
                     (page_contents pg))
       [] (paginate (bucket_name self) pfx)"

text \<open>\<open>head_object\<close> and \<open>upload_file\<close> are the client's calls; they return or raise.\<close>

definition file_exists_in_s3 :: "(string \<Rightarrow> string \<Rightarrow> exn + unit) \<Rightarrow> S3Utils \<Rightarrow> string \<Rightarrow> exn + bool" where
  "file_exists_in_s3 head_object self key =
     (case head_object (bucket_name self) key of
        Inr u \<Rightarrow> Inr True
      | Inl (ClientError code) \<Rightarrow> if code = ''404'' then Inr False else Inl (ClientError code)
      | Inl e \<Rightarrow> Inl e)"

definition upload_file_to_s3 ::
  "(string \<Rightarrow> string \<Rightarrow> string \<Rightarrow> exn + unit) \<Rightarrow> S3Utils \<Rightarrow> string \<Rightarrow> string \<Rightarrow> exn + bool" where
  "upload_file_to_s3 upload_file self key local_file_path =
     (case upload_file local_file_path (bucket_name self) key of
        Inr u \<Rightarrow> Inr True
      | Inl FileNotFoundError \<Rightarrow> Inr False
      | Inl e \<Rightarrow> Inl e)"

text \<open>\<open>os.path.join\<close> of two components on a POSIX system.\<close>

definition path_join :: "string \<Rightarrow> string \<Rightarrow> string" where
  "path_join a b =
     (if prefix ''/'' b then b
      else if a = [] \<or> suffix ''/'' a then a @ b
      else a @ ''/'' @ b)"

text \<open>The files selected by \<open>copy_local_dir_to_s3\<close>, relative to the source directory;
  \<open>walk\<close> is the result of \<open>os.walk(src_dir)\<close>: directory path, subdirectory names and
  file names of every directory of the tree.\<close>

definition tgt_files ::
  "(string \<times> string list \<times> string list) list \<Rightarrow> string \<Rightarrow> string list option \<Rightarrow> string list" where
  "tgt_files walk src_dir extensions =
     (let fs = concat (map (\<lambda>(dp, dn, fn). map (\<lambda>f. path_join dp f) fn) walk);
          fs = (if extensions \<noteq> None \<and> the extensions \<noteq> []
                then filter (\<lambda>f. list_ex (\<lambda>ext. endswith f ext) (the extensions)) fs
                else fs)
      in map (\<lambda>f. str_replace (src_dir @ ''/'') [] f) fs)"

fun upload_each ::
  "(string \<Rightarrow> string \<Rightarrow> string \<Rightarrow> exn + unit) \<Rightarrow> S3Utils \<Rightarrow> string \<Rightarrow> string \<Rightarrow> string list
     \<Rightarrow> (string \<rightharpoonup> string) \<Rightarrow> exn + (string \<rightharpoonup> string)" where
  "upload_each upload_file self src_dir dest_prefix [] uploaded_files = Inr uploaded_files"
| "upload_each upload_file self src_dir dest_prefix (tgt_file # rest) uploaded_files =
     (case upload_file (path_join src_dir tgt_file) (bucket_name self)
             (path_join dest_prefix tgt_file) of
        Inl e \<Rightarrow> Inl e
      | Inr u \<Rightarrow>
          upload_each upload_file self src_dir dest_prefix rest
            (uploaded_files(path_join src_dir tgt_file \<mapsto>
               ''s3://'' @ bucket_name self @ ''/'' @ path_join dest_prefix tgt_file)))"

definition copy_local_dir_to_s3 ::
  "(string \<times> string list \<times> string list) list \<Rightarrow> (string \<Rightarrow> string \<Rightarrow> string \<Rightarrow> exn + unit)
     \<Rightarrow> S3Utils \<Rightarrow> string \<Rightarrow> string \<Rightarrow> string list option \<Rightarrow> exn + (string \<rightharpoonup> string)" where
  "copy_local_dir_to_s3 walk upload_file self src_dir dest_prefix extensions =
     upload_each upload_file self src_dir dest_prefix (tgt_files walk src_dir extensions) Map.empty"


section \<open>Evaluation of the string functions on the examples\<close>

lemma str_lower_ascii_examples:
  "str_lower ''a.txt'' = ''a.txt''" "str_lower ''b.json'' = ''b.json''"
  "str_lower ''c.TXT'' = ''c.txt''" "str_lower ''.txt'' = ''.txt''"
  by (simp_all add: str_lower_def lower_char_def char_of_def bit_Suc_0_iff)

lemma ascii_upper_examples:
  "ascii_upper ''foo'' = ''FOO''" "ascii_upper ''Slip'' = ''SLIP''"
  by (simp_all add: ascii_upper_def char_of_def bit_Suc_0_iff)

lemma foldl_pages:
  "foldl (\<lambda>out pg. out @ g pg) acc pages = acc @ concat (map g pages)"
  by (induction pages arbitrary: acc) simp_all


section \<open>Auxiliary facts about the object store helper\<close>

lemma upload_each_dom:
  "upload_each upload_file self src_dir dest_prefix ts acc = Inr m \<Longrightarrow>
     dom m = dom acc \<union> set (map (path_join src_dir) ts)"
proof (induction ts arbitrary: acc)
  case Nil
  then show ?case by simp
next
  case (Cons t ts)
  show ?case
  proof (cases "upload_file (path_join src_dir t) (bucket_name self) (path_join dest_prefix t)")
    case (Inl e)
    with Cons.prems show ?thesis by simp
  next
    case (Inr u)
    with Cons.prems have
      "upload_each upload_file self src_dir dest_prefix ts
         (acc(path_join src_dir t \<mapsto>
            ''s3://'' @ bucket_name self @ ''/'' @ path_join dest_prefix t)) = Inr m"
      by simp
    from Cons.IH [OF this] show ?thesis by auto
  qed
qed

lemma tgt_files_filter:
  "tgt_files walk src_dir extensions =
     map (str_replace (src_dir @ ''/'') [])
       (if extensions = None \<or> extensions = Some []
        then concat (map (\<lambda>(dp, dn, fn). map (path_join dp) fn) walk)
        else filter (\<lambda>f. \<exists>ext \<in> set (the extensions). suffix ext f)
               (concat (map (\<lambda>(dp, dn, fn). map (path_join dp) fn) walk)))"
proof (cases "extensions = None \<or> extensions = Some []")
  case True
  then show ?thesis by (auto simp: tgt_files_def)
next
  case False
  then obtain e es where ext: "extensions = Some (e # es)"
    by (cases extensions; cases "the extensions") auto
  show ?thesis
    unfolding ext by (simp add: tgt_files_def endswith_def list_ex_iff)
qed

lemma listing_filter:
  "list_files_with_ext paginate self pfx extensions =
     (if extensions = None \<or> extensions = Some []
      then concat (map page_contents (paginate (bucket_name self) pfx))
      else filter (\<lambda>k. \<exists>ext \<in> set (the extensions). suffix (str_lower ext) (str_lower k))
             (concat (map page_contents (paginate (bucket_name self) pfx))))"
proof (cases "extensions = None \<or> extensions = Some []")
  case True
  then show ?thesis
    by (simp add: list_files_with_ext_def foldl_pages)
next
  case False
  then obtain e es where ext: "extensions = Some (e # es)"
    by (cases extensions; cases "the extensions") auto
  show ?thesis
    unfolding ext list_files_with_ext_def
    by (simp add: foldl_pages filter_concat endswith_def list_ex_iff comp_def)
qed


section \<open>Auxiliary facts about the string functions\<close>

lemma is_space_simps [simp]:
  "is_space NL" "is_space SPC" "is_space TAB"
  "\<not> is_space (CHR ''<'')" "\<not> is_space BACKSLASH"
  by (simp_all add: is_space_def)

lemma replace_from_single_char:
  "replace_from [c] [d] s = map (\<lambda>x. if x = c then d else x) s"
  by (induction s) auto

lemma replace_from_absent: "c \<notin> set s \<Longrightarrow> replace_from [c] new s = s"
  by (induction s) auto

lemma replace_from_set: "set (replace_from old new s) \<subseteq> set s \<union> set new"
proof (induction old new s rule: replace_from.induct)
  case (1 old new)
  then show ?case by simp
next
  case (2 old new c cs)
  show ?case
  proof (cases "old \<noteq> [] \<and> prefix old (c # cs)")
    case True
    have "set (drop (length old) (c # cs)) \<subseteq> set (c # cs)"
      by (rule set_drop_subset)
    with 2(1) [OF True] True show ?thesis by auto
  next
    case False
    with 2(2) [OF False] show ?thesis by auto
  qed
qed

lemma replace_from_prefix:
  "old \<noteq> [] \<Longrightarrow> replace_from old new (old @ r) = new @ replace_from old new r"
  by (cases old) simp_all

lemma replace_from_no_occurrence:
  "\<not> sublist old s \<Longrightarrow> replace_from old new s = s"
  by (induction s) (auto simp: sublist_Cons_right)

lemma squeeze_set: "set (squeeze Q s) \<subseteq> insert SPC (set s)"
proof (induction Q s rule: squeeze.induct)
  case (1 Q)
  then show ?case by simp
next
  case (2 Q c cs)
  have "set (dropWhile Q cs) \<subseteq> set cs" by (rule set_dropWhileD [THEN subsetI])
  with 2 show ?case by (cases "Q c") auto
qed

lemma strip_set: "set (strip s) \<subseteq> set s"
proof -
  have "set (dropWhile is_space (rev (dropWhile is_space s))) \<subseteq> set (rev (dropWhile is_space s))"
    by (rule set_dropWhileD [THEN subsetI])
  moreover have "set (dropWhile is_space s) \<subseteq> set s"
    by (rule set_dropWhileD [THEN subsetI])
  ultimately show ?thesis by (auto simp: strip_def lstrip_def rstrip_def)
qed

lemma mark_keep: "NL \<notin> set q \<Longrightarrow> replace_from [NL] old (q @ r) = q @ replace_from [NL] old r"
  by (induction q) auto

lemma restore_Cons_other:
  "\<not> prefix old (c # cs) \<Longrightarrow> replace_from old new (c # cs) = c # replace_from old new cs"
  by simp

lemma prefix_squeeze_mark:
  assumes q: "\<forall>x \<in> set q. \<not> is_space x \<and> x \<noteq> p"
    and old: "old = p # ps" "\<not> is_space p"
  shows "prefix q (squeeze is_space (replace_from [NL] old cs)) \<Longrightarrow> prefix q cs"
  using q
proof (induction q arbitrary: cs)
  case Nil
  then show ?case by simp
next
  case (Cons x q)
  from Cons.prems have x: "\<not> is_space x" "x \<noteq> p" and q': "\<forall>x \<in> set q. \<not> is_space x \<and> x \<noteq> p"
    by auto
  show ?case
  proof (cases cs)
    case Nil
    with Cons.prems show ?thesis by simp
  next
    case (Cons d ds)
    show ?thesis
    proof (cases "is_space d")
      case True
      show ?thesis
      proof (cases "d = NL")
        case True
        then have "squeeze is_space (replace_from [NL] old cs)
            = p # squeeze is_space (ps @ replace_from [NL] old ds)"
          using old \<open>cs = d # ds\<close> by simp
        with Cons.prems(1) x show ?thesis by simp
      next
        case False
        with True have "squeeze is_space (replace_from [NL] old cs)
            = SPC # squeeze is_space (dropWhile is_space (replace_from [NL] old ds))"
          using \<open>cs = d # ds\<close> by simp
        with Cons.prems(1) x show ?thesis by auto
      qed
    next
      case False
      then have "d \<noteq> NL" by auto
      with False have "squeeze is_space (replace_from [NL] old cs)
            = d # squeeze is_space (replace_from [NL] old ds)"
        using \<open>cs = d # ds\<close> by simp
      with Cons.prems(1) have "x = d" "prefix q (squeeze is_space (replace_from [NL] old ds))"
        by auto
      with Cons.IH [OF _ q'] \<open>cs = d # ds\<close> show ?thesis by simp
    qed
  qed
qed

lemma prefix_restore:
  assumes "NL \<notin> set q" "old \<noteq> []"
  shows "prefix q (replace_from old [NL] cs) \<Longrightarrow> prefix q cs"
  using assms(1)
proof (induction q arbitrary: cs)
  case Nil
  then show ?case by simp
next
  case (Cons x q)
  from Cons.prems have x: "x \<noteq> NL" and q': "NL \<notin> set q" by auto
  show ?case
  proof (cases cs)
    case Nil
    with Cons.prems show ?thesis by simp
  next
    case (Cons d ds)
    show ?thesis
    proof (cases "prefix old (d # ds)")
      case True
      with assms(2) have "replace_from old [NL] (d # ds)
          = NL # replace_from old [NL] (drop (length old) (d # ds))"
        by simp
      with Cons.prems(1) x \<open>cs = d # ds\<close> show ?thesis by simp
    next
      case False
      then have "replace_from old [NL] (d # ds) = d # replace_from old [NL] ds"
        by simp
      with Cons.prems(1) \<open>cs = d # ds\<close> have "x = d" "prefix q (replace_from old [NL] ds)"
        by auto
      with Cons.IH [OF _ q'] \<open>cs = d # ds\<close> show ?thesis by simp
    qed
  qed
qed

lemma restore_no_placeholder:
  assumes old: "old = p # ps" "p \<noteq> NL" "NL \<notin> set ps"
  shows "\<not> sublist old (replace_from old [NL] s)"
proof (induction s rule: length_induct)
  case (1 s)
  show ?case
  proof (cases s)
    case Nil
    with old show ?thesis by simp
  next
    case (Cons c cs)
    show ?thesis
    proof (cases "prefix old (c # cs)")
      case True
      with old have eq: "replace_from old [NL] (c # cs)
          = NL # replace_from old [NL] (drop (length old) (c # cs))"
        by simp
      have "length (drop (length old) (c # cs)) < length s"
        using Cons old by simp
      with 1 have "\<not> sublist old (replace_from old [NL] (drop (length old) (c # cs)))"
        by blast
      moreover have "\<not> prefix old (NL # replace_from old [NL] (drop (length old) (c # cs)))"
        using old by simp
      ultimately show ?thesis
        unfolding Cons eq by (simp only: sublist_Cons_right) simp
    next
      case False
      then have eq: "replace_from old [NL] (c # cs) = c # replace_from old [NL] cs"
        by simp
      from 1 Cons have ih: "\<not> sublist old (replace_from old [NL] cs)" by simp
      have "\<not> prefix old (c # replace_from old [NL] cs)"
      proof
        assume "prefix old (c # replace_from old [NL] cs)"
        with old have "c = p" and "prefix ps (replace_from old [NL] cs)" by auto
        then have "prefix ps cs"
          using prefix_restore [of ps old cs] old by simp
        with \<open>c = p\<close> False old show False by simp
      qed
      with ih show ?thesis
        unfolding Cons eq by (simp only: sublist_Cons_right) simp
    qed
  qed
qed

lemma dropWhile_space_mark:
  assumes old: "old = p # ps" "\<not> is_space p"
  shows "dropWhile is_space (replace_from [NL] old cs)
         = replace_from [NL] old (dropWhile sp_not_nl cs)"
proof (induction cs)
  case Nil
  then show ?case by simp
next
  case (Cons d ds)
  show ?case
  proof (cases "d = NL")
    case True
    with old show ?thesis by (simp add: sp_not_nl_def)
  next
    case False
    with Cons show ?thesis by (simp add: sp_not_nl_def)
  qed
qed

lemma dropWhile_restore:
  assumes old: "old = p # ps" "\<not> is_space p"
  shows "dropWhile sp_not_nl (replace_from old [NL] cs)
         = replace_from old [NL] (dropWhile sp_not_nl cs)"
proof (induction cs)
  case Nil
  then show ?case by simp
next
  case (Cons d ds)
  show ?case
  proof (cases "sp_not_nl d")
    case True
    then have "d \<noteq> p" using old by (auto simp: sp_not_nl_def)
    then have "\<not> prefix old (d # ds)" using old by simp
    with True Cons show ?thesis by simp
  next
    case False
    show ?thesis
    proof (cases "prefix old (d # ds)")
      case True
      with old have "replace_from old [NL] (d # ds)
          = NL # replace_from old [NL] (drop (length old) (d # ds))" by simp
      moreover have "\<not> sp_not_nl NL" by (simp add: sp_not_nl_def)
      ultimately show ?thesis using False by simp
    next
      case np: False
      with False show ?thesis by simp
    qed
  qed
qed

lemma squeeze_keep:
  "\<forall>c \<in> set q. \<not> Q c \<Longrightarrow> squeeze Q (q @ u) = q @ squeeze Q u"
  by (induction q) auto

lemma old_no_nl:
  assumes "old = p # ps" "\<not> is_space p" "\<forall>x \<in> set ps. \<not> is_space x \<and> x \<noteq> p"
  shows "NL \<notin> set old"
proof
  assume "NL \<in> set old"
  with assms(1) have "NL = p \<or> NL \<in> set ps" by simp
  with assms(2,3) is_space_simps(1) show False by blast
qed

lemma old_no_space:
  assumes "old = p # ps" "\<not> is_space p" "\<forall>x \<in> set ps. \<not> is_space x \<and> x \<noteq> p"
  shows "\<forall>c \<in> set old. \<not> is_space c"
  using assms by simp

lemma not_sp_not_nl_NL: "\<not> sp_not_nl NL"
  by (simp add: sp_not_nl_def)

lemma step_prefix:
  assumes old: "old = p # ps" "\<not> is_space p" "\<forall>x \<in> set ps. \<not> is_space x \<and> x \<noteq> p"
    and ih: "replace_from old [NL] (squeeze is_space (replace_from [NL] old r))
          = squeeze sp_not_nl (replace_from old [NL] r)"
  shows "replace_from old [NL] (squeeze is_space (replace_from [NL] old (old @ r)))
         = squeeze sp_not_nl (replace_from old [NL] (old @ r))"
proof -
  have old_ne: "old \<noteq> []" using old(1) by simp
  have a: "replace_from [NL] old (old @ r) = old @ replace_from [NL] old r"
    using old_no_nl [OF old] by (rule mark_keep)
  have b: "squeeze is_space (old @ replace_from [NL] old r)
          = old @ squeeze is_space (replace_from [NL] old r)"
    using old_no_space [OF old] by (rule squeeze_keep)
  have c: "replace_from old [NL] (old @ squeeze is_space (replace_from [NL] old r))
          = [NL] @ replace_from old [NL] (squeeze is_space (replace_from [NL] old r))"
    using old_ne by (rule replace_from_prefix)
  have d: "replace_from old [NL] (old @ r) = [NL] @ replace_from old [NL] r"
    using old_ne by (rule replace_from_prefix)
  have e: "squeeze sp_not_nl ([NL] @ replace_from old [NL] r)
      = [NL] @ squeeze sp_not_nl (replace_from old [NL] r)"
    by (rule squeeze_keep) (simp add: not_sp_not_nl_NL)
  show ?thesis
    unfolding a b c d e ih ..
qed

lemma step_newline:
  assumes old: "old = p # ps" "\<not> is_space p" "\<forall>x \<in> set ps. \<not> is_space x \<and> x \<noteq> p"
    and np: "\<not> prefix old (NL # cs)"
    and ih: "replace_from old [NL] (squeeze is_space (replace_from [NL] old cs))
          = squeeze sp_not_nl (replace_from old [NL] cs)"
  shows "replace_from old [NL] (squeeze is_space (replace_from [NL] old (NL # cs)))
         = squeeze sp_not_nl (replace_from old [NL] (NL # cs))"
proof -
  have old_ne: "old \<noteq> []" using old(1) by simp
  have a: "replace_from [NL] old (NL # cs) = old @ replace_from [NL] old cs"
    by simp
  have b: "squeeze is_space (old @ replace_from [NL] old cs)
          = old @ squeeze is_space (replace_from [NL] old cs)"
    using old_no_space [OF old] by (rule squeeze_keep)
  have c: "replace_from old [NL] (old @ squeeze is_space (replace_from [NL] old cs))
          = [NL] @ replace_from old [NL] (squeeze is_space (replace_from [NL] old cs))"
    using old_ne by (rule replace_from_prefix)
  have d: "replace_from old [NL] (NL # cs) = NL # replace_from old [NL] cs"
    using np by (rule restore_Cons_other)
  have e: "squeeze sp_not_nl (NL # replace_from old [NL] cs)
      = NL # squeeze sp_not_nl (replace_from old [NL] cs)"
    by (simp add: not_sp_not_nl_NL)
  show ?thesis
    unfolding a b c d e ih by simp
qed

lemma step_space:
  assumes old: "old = p # ps" "\<not> is_space p" "\<forall>x \<in> set ps. \<not> is_space x \<and> x \<noteq> p"
    and c: "is_space c" "c \<noteq> NL"
    and ih: "replace_from old [NL]
                (squeeze is_space (replace_from [NL] old (dropWhile sp_not_nl cs)))
              = squeeze sp_not_nl (replace_from old [NL] (dropWhile sp_not_nl cs))"
  shows "replace_from old [NL] (squeeze is_space (replace_from [NL] old (c # cs)))
         = squeeze sp_not_nl (replace_from old [NL] (c # cs))"
proof -
  have spc: "sp_not_nl c" using c by (simp add: sp_not_nl_def)
  have "c \<noteq> p" using c(1) old(2) by blast
  then have np: "\<not> prefix old (c # cs)" using old(1) by simp
  have a: "replace_from [NL] old (c # cs) = c # replace_from [NL] old cs"
    using c(2) by simp
  have b: "squeeze is_space (c # replace_from [NL] old cs)
      = SPC # squeeze is_space (dropWhile is_space (replace_from [NL] old cs))"
    using c(1) by simp
  have b': "dropWhile is_space (replace_from [NL] old cs)
      = replace_from [NL] old (dropWhile sp_not_nl cs)"
    using old(1,2) by (rule dropWhile_space_mark)
  have "SPC \<noteq> p" using old(2) is_space_simps(2) by blast
  then have "\<not> prefix old (SPC # squeeze is_space (replace_from [NL] old (dropWhile sp_not_nl cs)))"
    using old(1) by simp
  then have c': "replace_from old [NL]
        (SPC # squeeze is_space (replace_from [NL] old (dropWhile sp_not_nl cs)))
      = SPC # replace_from old [NL]
          (squeeze is_space (replace_from [NL] old (dropWhile sp_not_nl cs)))"
    by (rule restore_Cons_other)
  have d: "replace_from old [NL] (c # cs) = c # replace_from old [NL] cs"
    using np by (rule restore_Cons_other)
  have e: "squeeze sp_not_nl (c # replace_from old [NL] cs)
      = SPC # squeeze sp_not_nl (dropWhile sp_not_nl (replace_from old [NL] cs))"
    using spc by simp
  have e': "dropWhile sp_not_nl (replace_from old [NL] cs)
      = replace_from old [NL] (dropWhile sp_not_nl cs)"
    using old(1,2) by (rule dropWhile_restore)
  show ?thesis
    unfolding a b b' c' d e e' ih ..
qed

lemma step_other:
  assumes old: "old = p # ps" "\<not> is_space p" "\<forall>x \<in> set ps. \<not> is_space x \<and> x \<noteq> p"
    and c: "\<not> is_space c"
    and np: "\<not> prefix old (c # cs)"
    and ih: "replace_from old [NL] (squeeze is_space (replace_from [NL] old cs))
          = squeeze sp_not_nl (replace_from old [NL] cs)"
  shows "replace_from old [NL] (squeeze is_space (replace_from [NL] old (c # cs)))
         = squeeze sp_not_nl (replace_from old [NL] (c # cs))"
proof -
  have nq: "\<not> sp_not_nl c" using c by (simp add: sp_not_nl_def)
  have "c \<noteq> NL" using c is_space_simps(1) by blast
  then have a: "replace_from [NL] old (c # cs) = c # replace_from [NL] old cs"
    by simp
  have b: "squeeze is_space (c # replace_from [NL] old cs)
      = c # squeeze is_space (replace_from [NL] old cs)"
    using c by simp
  have "\<not> prefix old (c # squeeze is_space (replace_from [NL] old cs))"
  proof
    assume "prefix old (c # squeeze is_space (replace_from [NL] old cs))"
    then have "prefix (p # ps) (c # squeeze is_space (replace_from [NL] old cs))"
      unfolding old(1) .
    then have cp: "c = p" and pre: "prefix ps (squeeze is_space (replace_from [NL] old cs))"
      by simp_all
    from pre have "prefix ps cs"
      by (rule prefix_squeeze_mark [OF old(3) old(1,2)])
    then have "prefix (p # ps) (c # cs)" using cp by simp
    then have "prefix old (c # cs)" unfolding old(1) .
    with np show False by contradiction
  qed
  then have c': "replace_from old [NL] (c # squeeze is_space (replace_from [NL] old cs))
      = c # replace_from old [NL] (squeeze is_space (replace_from [NL] old cs))"
    by (rule restore_Cons_other)
  have d: "replace_from old [NL] (c # cs) = c # replace_from old [NL] cs"
    using np by (rule restore_Cons_other)
  have e: "squeeze sp_not_nl (c # replace_from old [NL] cs)
      = c # squeeze sp_not_nl (replace_from old [NL] cs)"
    using nq by simp
  show ?thesis
    unfolding a b c' d e ih ..
qed

lemma restore_squeeze_mark:
  assumes old: "old = p # ps" "\<not> is_space p" "\<forall>x \<in> set ps. \<not> is_space x \<and> x \<noteq> p"
  shows "replace_from old [NL] (squeeze is_space (replace_from [NL] old t))
         = squeeze sp_not_nl (replace_from old [NL] t)"
proof (induction t rule: length_induct)
  case (1 t)
  show ?case
  proof (cases t)
    case Nil
    then show ?thesis by simp
  next
    case (Cons c cs)
    from 1 Cons have ih: "replace_from old [NL] (squeeze is_space (replace_from [NL] old cs))
          = squeeze sp_not_nl (replace_from old [NL] cs)" by simp
    show ?thesis
    proof (cases "prefix old (c # cs)")
      case True
      then obtain r where r: "c # cs = old @ r" by (auto simp: prefix_def)
      have "length (old @ r) = length t" using r Cons by simp
      then have "length r < length t" using old(1) by simp
      with 1 have "replace_from old [NL] (squeeze is_space (replace_from [NL] old r))
          = squeeze sp_not_nl (replace_from old [NL] r)" by blast
      then show ?thesis
        unfolding Cons r by (rule step_prefix [OF old])
    next
      case False
      show ?thesis
      proof (cases "c = NL")
        case True
        from False have np: "\<not> prefix old (NL # cs)" unfolding True .
        show ?thesis
          unfolding Cons True by (rule step_newline [OF old np ih])
      next
        case nnl: False
        show ?thesis
        proof (cases "is_space c")
          case True
          have "length (dropWhile sp_not_nl cs) \<le> length cs"
            by (rule length_dropWhile_le)
          then have "length (dropWhile sp_not_nl cs) < length t" using Cons by simp
          with 1 have "replace_from old [NL]
                (squeeze is_space (replace_from [NL] old (dropWhile sp_not_nl cs)))
              = squeeze sp_not_nl (replace_from old [NL] (dropWhile sp_not_nl cs))" by blast
          then show ?thesis
            unfolding Cons by (rule step_space [OF old True nnl])
        next
          case nsp: False
          show ?thesis
            unfolding Cons by (rule step_other [OF old nsp False ih])
        qed
      qed
    qed
  qed
qed

lemma rstrip_Nil: "rstrip [] = []"
  by (simp add: rstrip_def)

lemma rstrip_Cons:
  "rstrip (c # cs) = (if (\<forall>x \<in> set cs. is_space x) \<and> is_space c then [] else c # rstrip cs)"
  by (simp add: rstrip_def dropWhile_append)

lemma rstrip_Cons_keep:
  "\<not> ((\<forall>x \<in> set cs. is_space x) \<and> is_space c) \<Longrightarrow> rstrip (c # cs) = c # rstrip cs"
  by (simp only: rstrip_Cons if_False)

lemma rstrip_Cons_drop:
  "(\<forall>x \<in> set cs. is_space x) \<and> is_space c \<Longrightarrow> rstrip (c # cs) = []"
  by (simp add: rstrip_Cons)

lemma rstrip_all_space: "\<forall>x \<in> set s. is_space x \<Longrightarrow> rstrip s = []"
  by (simp add: rstrip_def)

lemma dropWhile_dropWhile_weaker:
  "\<forall>c. Q c \<longrightarrow> P c \<Longrightarrow> dropWhile P (dropWhile Q cs) = dropWhile P cs"
  by (induction cs) auto

lemma all_dropWhile_weaker:
  "\<forall>c. Q c \<longrightarrow> P c \<Longrightarrow> (\<forall>x \<in> set (dropWhile Q cs). P x) \<longleftrightarrow> (\<forall>x \<in> set cs. P x)"
  by (induction cs) auto

lemma dropWhile_rstrip:
  assumes "\<forall>c. Q c \<longrightarrow> is_space c"
  shows "dropWhile Q (rstrip cs) = rstrip (dropWhile Q cs)"
proof (induction cs)
  case Nil
  then show ?case by (simp add: rstrip_Nil)
next
  case (Cons d ds)
  show ?case
  proof (cases "Q d")
    case True
    then have sd: "is_space d" using assms by blast
    show ?thesis
    proof (cases "\<forall>x \<in> set ds. is_space x")
      case True
      then have "\<forall>x \<in> set (dropWhile Q ds). is_space x"
        using all_dropWhile_weaker [OF assms, of ds] by blast
      then have "rstrip (dropWhile Q ds) = []" by (rule rstrip_all_space)
      with True sd \<open>Q d\<close> show ?thesis by (simp add: rstrip_Cons)
    next
      case False
      then have "rstrip (d # ds) = d # rstrip ds"
        by (intro rstrip_Cons_keep) blast
      with \<open>Q d\<close> Cons show ?thesis by simp
    qed
  next
    case False
    show ?thesis
    proof (cases "(\<forall>x \<in> set ds. is_space x) \<and> is_space d")
      case True
      then have "rstrip (d # ds) = []" by (rule rstrip_Cons_drop)
      with False show ?thesis by simp
    next
      case nd: False
      then have "rstrip (d # ds) = d # rstrip ds" by (rule rstrip_Cons_keep)
      with False show ?thesis by simp
    qed
  qed
qed

lemma lstrip_squeeze:
  assumes "\<forall>c. Q c \<longrightarrow> is_space c"
  shows "lstrip (squeeze Q t) = squeeze Q (lstrip t)"
  using assms unfolding lstrip_def
proof (induction Q t rule: squeeze.induct)
  case (1 Q)
  then show ?case by simp
next
  case (2 Q c cs)
  show ?case
  proof (cases "Q c")
    case True
    then have sc: "is_space c" using 2(3) by blast
    have "dropWhile is_space (squeeze Q (dropWhile Q cs))
        = squeeze Q (dropWhile is_space (dropWhile Q cs))"
      using 2(1) [OF True 2(3)] .
    also have "dropWhile is_space (dropWhile Q cs) = dropWhile is_space cs"
      using 2(3) by (rule dropWhile_dropWhile_weaker)
    finally show ?thesis using True sc by simp
  next
    case False
    with 2(2) [OF False 2(3)] show ?thesis by simp
  qed
qed

lemma all_space_squeeze:
  assumes "\<forall>c. Q c \<longrightarrow> is_space c"
  shows "(\<forall>x \<in> set (squeeze Q v). is_space x) \<longleftrightarrow> (\<forall>x \<in> set v. is_space x)"
  using assms
proof (induction Q v rule: squeeze.induct)
  case (1 Q)
  then show ?case by simp
next
  case (2 Q c cs)
  show ?case
  proof (cases "Q c")
    case True
    then have sc: "is_space c" using 2(3) by blast
    have "(\<forall>x \<in> set (squeeze Q (dropWhile Q cs)). is_space x)
        \<longleftrightarrow> (\<forall>x \<in> set (dropWhile Q cs). is_space x)"
      using 2(1) [OF True 2(3)] .
    also have "\<dots> \<longleftrightarrow> (\<forall>x \<in> set cs. is_space x)"
      using 2(3) by (rule all_dropWhile_weaker)
    finally show ?thesis using True sc by simp
  next
    case False
    with 2(2) [OF False 2(3)] show ?thesis by simp
  qed
qed

lemma rstrip_squeeze:
  assumes "\<forall>c. Q c \<longrightarrow> is_space c"
  shows "rstrip (squeeze Q t) = squeeze Q (rstrip t)"
  using assms
proof (induction Q t rule: squeeze.induct)
  case (1 Q)
  then show ?case by (simp add: rstrip_Nil)
next
  case (2 Q c cs)
  show ?case
  proof (cases "Q c")
    case True
    then have sc: "is_space c" using 2(3) by blast
    have ih: "rstrip (squeeze Q (dropWhile Q cs)) = squeeze Q (rstrip (dropWhile Q cs))"
      using 2(1) [OF True 2(3)] .
    have all: "(\<forall>x \<in> set (squeeze Q (dropWhile Q cs)). is_space x) \<longleftrightarrow> (\<forall>x \<in> set cs. is_space x)"
      using all_space_squeeze [OF 2(3), of "dropWhile Q cs"] all_dropWhile_weaker [OF 2(3), of cs]
      by blast
    have sq: "squeeze Q (c # cs) = SPC # squeeze Q (dropWhile Q cs)" using True by simp
    show ?thesis
    proof (cases "\<forall>x \<in> set cs. is_space x")
      case all_sp: True
      with all sc show ?thesis
        unfolding sq by (simp add: rstrip_Cons)
    next
      case not_all: False
      have "rstrip (SPC # squeeze Q (dropWhile Q cs)) = SPC # rstrip (squeeze Q (dropWhile Q cs))"
        using all not_all by (simp add: rstrip_Cons)
      also have "\<dots> = SPC # squeeze Q (dropWhile Q (rstrip cs))"
        unfolding ih dropWhile_rstrip [OF 2(3)] ..
      also have "\<dots> = squeeze Q (c # rstrip cs)" using True by simp
      also have "c # rstrip cs = rstrip (c # cs)" using not_all by (simp add: rstrip_Cons)
      finally show ?thesis unfolding sq .
    qed
  next
    case False
    have ih: "rstrip (squeeze Q cs) = squeeze Q (rstrip cs)"
      using 2(2) [OF False 2(3)] .
    have all: "(\<forall>x \<in> set (squeeze Q cs). is_space x) \<longleftrightarrow> (\<forall>x \<in> set cs. is_space x)"
      by (rule all_space_squeeze [OF 2(3)])
    from False ih all show ?thesis by (simp add: rstrip_Cons)
  qed
qed

lemma strip_squeeze:
  assumes "\<forall>c. Q c \<longrightarrow> is_space c"
  shows "strip (squeeze Q t) = squeeze Q (strip t)"
  unfolding strip_def lstrip_squeeze [OF assms] rstrip_squeeze [OF assms] ..

lemma strip_strip: "strip (strip t) = strip t"
proof -
  have comm: "lstrip (rstrip s) = rstrip (lstrip s)" for s
    unfolding lstrip_def by (rule dropWhile_rstrip) simp
  have "lstrip (lstrip s) = lstrip s" for s
    by (simp add: lstrip_def)
  moreover have "rstrip (rstrip s) = rstrip s" for s
    by (simp add: rstrip_def)
  ultimately show ?thesis
    by (simp add: strip_def comm)
qed

lemma dropWhile_squeeze_head:
  "w = [] \<or> \<not> Q (hd w) \<Longrightarrow> dropWhile Q (squeeze Q w) = squeeze Q w"
  by (cases w) simp_all

lemma dropWhile_head: "dropWhile Q cs = [] \<or> \<not> Q (hd (dropWhile Q cs))"
  using hd_dropWhile [of Q cs] by blast

lemma squeeze_idem: "squeeze Q (squeeze Q t) = squeeze Q t"
proof (induction Q t rule: squeeze.induct)
  case (1 Q)
  then show ?case by simp
next
  case (2 Q c cs)
  show ?case
  proof (cases "Q c")
    case True
    have ih: "squeeze Q (squeeze Q (dropWhile Q cs)) = squeeze Q (dropWhile Q cs)"
      using 2(1) [OF True] .
    have dw: "dropWhile Q (squeeze Q (dropWhile Q cs)) = squeeze Q (dropWhile Q cs)"
      by (rule dropWhile_squeeze_head [OF dropWhile_head])
    show ?thesis using True ih dw by simp
  next
    case False
    with 2(2) [OF False] show ?thesis by simp
  qed
qed

lemma count_list_dropWhile: "\<not> Q x \<Longrightarrow> count_list (dropWhile Q cs) x = count_list cs x"
  by (induction cs) auto

lemma count_squeeze:
  assumes "\<not> Q NL"
  shows "count_list (squeeze Q t) NL = count_list t NL"
  using assms
proof (induction Q t rule: squeeze.induct)
  case (1 Q)
  then show ?case by simp
next
  case (2 Q c cs)
  show ?case
  proof (cases "Q c")
    case True
    then have "c \<noteq> NL" using 2(3) by blast
    moreover have "count_list (squeeze Q (dropWhile Q cs)) NL = count_list cs NL"
      using 2(1) [OF True 2(3)] count_list_dropWhile [of Q NL cs] 2(3) by simp
    ultimately show ?thesis using True by simp
  next
    case False
    with 2(2) [OF False 2(3)] show ?thesis by simp
  qed
qed

lemma map_fixed:
  "map f w = q \<Longrightarrow> \<forall>x. f x \<in> set q \<longrightarrow> f x = x \<Longrightarrow> w = q"
proof -
  assume m: "map f w = q" and fx: "\<forall>x. f x \<in> set q \<longrightarrow> f x = x"
  have "\<forall>x \<in> set w. f x = x"
  proof
    fix x assume "x \<in> set w"
    then have "f x \<in> set (map f w)" by simp
    then have "f x \<in> set q" unfolding m .
    with fx show "f x = x" by blast
  qed
  then have "map f w = w" by (intro map_idI) blast
  with m show "w = q" by simp
qed

lemma prefix_map_fixed:
  assumes "prefix q (map f u)" "\<forall>x. f x \<in> set q \<longrightarrow> f x = x"
  shows "prefix q u"
proof -
  from assms(1) obtain b where "map f u = q @ b" by (rule prefixE)
  then have "take (length q) (map f u) = q" by simp
  then have "map f (take (length q) u) = q" by (simp only: take_map)
  then have "take (length q) u = q" using assms(2) by (rule map_fixed)
  then show ?thesis using take_is_prefix [of "length q" u] by simp
qed

lemma sublist_map_fixed:
  assumes "\<forall>x. f x \<in> set q \<longrightarrow> f x = x"
  shows "sublist q (map f u) \<Longrightarrow> sublist q u"
proof (induction u)
  case Nil
  then show ?case by simp
next
  case (Cons y ys)
  from Cons.prems have "sublist q (f y # map f ys)" by simp
  then have "prefix q (map f (y # ys)) \<or> sublist q (map f ys)"
    by (simp only: sublist_Cons_right list.map)
  then show ?case
  proof
    assume "prefix q (map f (y # ys))"
    then have "prefix q (y # ys)" using assms by (rule prefix_map_fixed)
    then show ?thesis by (simp only: sublist_Cons_right) blast
  next
    assume "sublist q (map f ys)"
    then have "sublist q ys" by (rule Cons.IH)
    then show ?thesis by (simp only: sublist_Cons_right) blast
  qed
qed

lemma sublist_strip: "sublist (strip w) w"
proof -
  have "sublist (rstrip (lstrip w)) (lstrip w)"
    unfolding rstrip_def sublist_rev_left by (rule sublist_dropWhile)
  moreover have "sublist (lstrip w) w"
    unfolding lstrip_def by (rule sublist_dropWhile)
  ultimately show ?thesis
    unfolding strip_def by (rule sublist_order.order.trans)
qed

lemma lstrip_map:
  assumes "\<forall>x. is_space (f x) = is_space x"
  shows "lstrip (map f s) = map f (lstrip s)"
proof -
  have c: "is_space \<circ> f = is_space"
    using assms by (simp add: fun_eq_iff)
  show ?thesis unfolding lstrip_def dropWhile_map c ..
qed

lemma rstrip_map:
  assumes "\<forall>x. is_space (f x) = is_space x"
  shows "rstrip (map f s) = map f (rstrip s)"
proof -
  have c: "is_space \<circ> f = is_space"
    using assms by (simp add: fun_eq_iff)
  have "rev (dropWhile is_space (rev (map f s))) = rev (dropWhile is_space (map f (rev s)))"
    by (simp only: rev_map)
  also have "\<dots> = rev (map f (dropWhile is_space (rev s)))"
    unfolding dropWhile_map c ..
  also have "\<dots> = map f (rev (dropWhile is_space (rev s)))"
    by (rule rev_map)
  finally show ?thesis unfolding rstrip_def .
qed

lemma strip_map:
  assumes "\<forall>x. is_space (f x) = is_space x"
  shows "strip (map f s) = map f (strip s)"
  unfolding strip_def lstrip_map [OF assms] rstrip_map [OF assms] ..

lemma count_list_map_NL:
  assumes "\<And>x. (f x = NL) = (x = NL)"
  shows "count_list (map f s) NL = count_list s NL"
  by (induction s) (simp_all add: assms)

lemma tab_replace:
  "str_replace [TAB] [SPC] s = map (\<lambda>x. if x = TAB then SPC else x) s"
  by (simp add: str_replace_def replace_from_single_char)

lemma backslash_replace:
  "str_replace [BACKSLASH] [] s = filter (\<lambda>x. x \<noteq> BACKSLASH) s"
  unfolding str_replace_def by (induction s) simp_all

lemma str_replace_single_absent: "c \<notin> set s \<Longrightarrow> str_replace [c] new s = s"
  by (simp add: str_replace_def replace_from_absent)

lemma sp_not_nl_space: "\<forall>c. sp_not_nl c \<longrightarrow> is_space c"
  by (simp add: sp_not_nl_def)

lemma tab_spc_space: "\<forall>c. (c = TAB \<or> c = SPC) \<longrightarrow> is_space c"
  using is_space_simps(2,3) by blast

lemma preserve_core:
  "str_replace PLACEHOLDER [NL] (squeeze is_space (str_replace [NL] PLACEHOLDER t))
     = squeeze sp_not_nl (replace_from PLACEHOLDER [NL] t)"
proof -
  have a: "PLACEHOLDER = CHR ''<'' # ''NEWLINE>''" by simp
  have b: "\<not> is_space (CHR ''<'')" by (rule is_space_simps(4))
  have c: "\<forall>x \<in> set ''NEWLINE>''. \<not> is_space x \<and> x \<noteq> CHR ''<''"
    by (simp add: is_space_def)
  have "replace_from PLACEHOLDER [NL] (squeeze is_space (replace_from [NL] PLACEHOLDER t))
          = squeeze sp_not_nl (replace_from PLACEHOLDER [NL] t)"
    by (rule restore_squeeze_mark [OF a b c])
  then show ?thesis
    by (simp add: str_replace_def)
qed

lemma strip_Nil: "strip [] = []"
  by (simp add: strip_def lstrip_def rstrip_def)

lemma clean_prompt_nf:
  "clean_prompt x rb cw pn =
     strip (if cw then
              (if pn then squeeze sp_not_nl (replace_from PLACEHOLDER [NL]
                            (str_replace [TAB] [SPC] (if rb then str_replace [BACKSLASH] [] x else x)))
               else squeeze is_space
                      (str_replace [TAB] [SPC] (if rb then str_replace [BACKSLASH] [] x else x)))
            else str_replace [TAB] [SPC] (if rb then str_replace [BACKSLASH] [] x else x))"
proof (cases "x = []")
  case True
  then show ?thesis
    by (simp add: clean_prompt_def str_replace_def strip_Nil)
next
  case False
  then show ?thesis
    unfolding clean_prompt_def Let_def re_sub_whitespace_def preserve_core by simp
qed

lemma tab_absent: "TAB \<notin> set (str_replace [TAB] [SPC] s)"
  unfolding tab_replace by (induction s) simp_all

lemma backslash_absent: "BACKSLASH \<notin> set (str_replace [BACKSLASH] [] s)"
  unfolding backslash_replace by simp

lemma backslash_tab_replace:
  "BACKSLASH \<notin> set s \<Longrightarrow> BACKSLASH \<notin> set (str_replace [TAB] [SPC] s)"
  unfolding tab_replace by (induction s) simp_all

lemma restore_set: "set (replace_from old [NL] s) \<subseteq> insert NL (set s)"
  using replace_from_set [of old "[NL]" s] by auto

lemma body_set:
  "set (strip (if cw then
                 (if pn then squeeze sp_not_nl (replace_from PLACEHOLDER [NL] t)
                  else squeeze is_space t)
               else t)) \<subseteq> insert SPC (insert NL (set t))"
proof -
  have a: "set (squeeze sp_not_nl (replace_from PLACEHOLDER [NL] t)) \<subseteq> insert SPC (insert NL (set t))"
    using squeeze_set [of sp_not_nl "replace_from PLACEHOLDER [NL] t"]
      restore_set [of PLACEHOLDER t] by blast
  have b: "set (squeeze is_space t) \<subseteq> insert SPC (insert NL (set t))"
    using squeeze_set [of is_space t] by blast
  have c: "set t \<subseteq> insert SPC (insert NL (set t))" by blast
  have "set (if cw then
                 (if pn then squeeze sp_not_nl (replace_from PLACEHOLDER [NL] t)
                  else squeeze is_space t)
               else t) \<subseteq> insert SPC (insert NL (set t))"
    using a b c by (cases cw; cases pn) simp_all
  then show ?thesis
    using strip_set by (rule order_trans [rotated])
qed

lemma no_placeholder_core:
  "\<not> sublist PLACEHOLDER (squeeze sp_not_nl (replace_from PLACEHOLDER [NL] t))"
proof -
  have a: "PLACEHOLDER = CHR ''<'' # ''NEWLINE>''" by simp
  have b: "\<not> is_space (CHR ''<'')" by (rule is_space_simps(4))
  have c: "\<forall>x \<in> set ''NEWLINE>''. \<not> is_space x \<and> x \<noteq> CHR ''<''"
    by (simp add: is_space_def)
  have d: "CHR ''<'' \<noteq> NL" by simp
  have e: "NL \<notin> set ''NEWLINE>''" by simp
  have "\<not> sublist PLACEHOLDER
          (replace_from PLACEHOLDER [NL] (squeeze is_space (replace_from [NL] PLACEHOLDER t)))"
    by (rule restore_no_placeholder [OF a d e])
  then show ?thesis
    unfolding restore_squeeze_mark [OF a b c] .
qed

lemma strip_squeeze_fixed:
  assumes "\<forall>c. Q c \<longrightarrow> is_space c"
  shows "strip (squeeze Q (strip (squeeze Q z))) = strip (squeeze Q z)"
proof -
  have "squeeze Q (strip (squeeze Q z)) = strip (squeeze Q (squeeze Q z))"
    by (rule strip_squeeze [OF assms, symmetric])
  also have "\<dots> = strip (squeeze Q z)"
    by (simp only: squeeze_idem)
  finally have "squeeze Q (strip (squeeze Q z)) = strip (squeeze Q z)" .
  then show ?thesis by (simp only: strip_strip)
qed

lemma clean_prompt_fixed:
  assumes y: "y = clean_prompt x rb cw pn"
  shows "clean_prompt y rb cw pn = y"
proof -
  define t where "t = str_replace [TAB] [SPC] (if rb then str_replace [BACKSLASH] [] x else x)"
  have nf: "y = strip (if cw then
                 (if pn then squeeze sp_not_nl (replace_from PLACEHOLDER [NL] t)
                  else squeeze is_space t)
               else t)"
    unfolding y t_def by (rule clean_prompt_nf)
  have sety: "set y \<subseteq> insert SPC (insert NL (set t))"
    unfolding nf by (rule body_set)
  have "TAB \<notin> set t" unfolding t_def by (rule tab_absent)
  moreover have "TAB \<noteq> SPC" "TAB \<noteq> NL" by simp_all
  ultimately have tab: "TAB \<notin> set y" using sety by blast
  have bs: "BACKSLASH \<notin> set y" if rb
  proof -
    have "BACKSLASH \<notin> set t"
      unfolding t_def using that by (simp add: backslash_tab_replace backslash_absent)
    moreover have "BACKSLASH \<noteq> SPC" "BACKSLASH \<noteq> NL" by simp_all
    ultimately show ?thesis using sety by blast
  qed
  have u': "(if rb then str_replace [BACKSLASH] [] y else y) = y"
    using bs by (simp add: str_replace_single_absent)
  have t': "str_replace [TAB] [SPC] y = y"
    using tab by (rule str_replace_single_absent)
  have nf2: "clean_prompt y rb cw pn =
     strip (if cw then
              (if pn then squeeze sp_not_nl (replace_from PLACEHOLDER [NL] y)
               else squeeze is_space y)
            else y)"
    by (simp only: clean_prompt_nf u' t')
  show ?thesis
  proof (cases cw)
    case False
    then have "y = strip t" using nf by simp
    then have "strip y = y" using strip_strip [of t] by simp
    with False nf2 show ?thesis by simp
  next
    case True
    show ?thesis
    proof (cases pn)
      case False
      with True have yy: "y = strip (squeeze is_space t)" using nf by simp
      have "strip (squeeze is_space (strip (squeeze is_space t))) = strip (squeeze is_space t)"
        by (rule strip_squeeze_fixed) simp
      then have "strip (squeeze is_space y) = y" unfolding yy [symmetric] .
      with True False nf2 show ?thesis by simp
    next
      case pn: True
      with True have yy: "y = strip (squeeze sp_not_nl (replace_from PLACEHOLDER [NL] t))"
        using nf by simp
      have "sublist y (squeeze sp_not_nl (replace_from PLACEHOLDER [NL] t))"
        unfolding yy by (rule sublist_strip)
      then have "\<not> sublist PLACEHOLDER y"
        using no_placeholder_core [of t] sublist_order.order.trans by blast
      then have r: "replace_from PLACEHOLDER [NL] y = y"
        by (rule replace_from_no_occurrence)
      have "strip (squeeze sp_not_nl (strip (squeeze sp_not_nl (replace_from PLACEHOLDER [NL] t))))
           = strip (squeeze sp_not_nl (replace_from PLACEHOLDER [NL] t))"
        by (rule strip_squeeze_fixed [OF sp_not_nl_space])
      then have "strip (squeeze sp_not_nl y) = y" unfolding yy [symmetric] .
      with True pn nf2 r show ?thesis by simp
    qed
  qed
qed

lemma count_newlines_strip_squeeze:
  assumes "\<forall>c. Q c \<longrightarrow> is_space c" "\<not> Q NL"
  shows "count_newlines (strip (squeeze Q s)) = count_newlines (strip s)"
  unfolding count_newlines_def strip_squeeze [OF assms(1)] using assms(2) by (rule count_squeeze)

lemma count_newlines_strip_tabs:
  "count_newlines (strip (str_replace [TAB] [SPC] s)) = count_newlines (strip s)"
proof -
  have sp: "\<forall>x. is_space (if x = TAB then SPC else x) = is_space x" by simp
  have nl: "((if x = TAB then SPC else x) = NL) = (x = NL)" for x by simp
  show ?thesis
    unfolding count_newlines_def tab_replace strip_map [OF sp]
    by (rule count_list_map_NL [OF nl])
qed

lemma no_placeholder_tabs:
  assumes "\<not> sublist PLACEHOLDER s"
  shows "\<not> sublist PLACEHOLDER (str_replace [TAB] [SPC] s)"
proof -
  have fx: "\<forall>x. (if x = TAB then SPC else x) \<in> set PLACEHOLDER \<longrightarrow> (if x = TAB then SPC else x) = x"
    by simp
  show ?thesis
    unfolding tab_replace using sublist_map_fixed [OF fx] assms by blast
qed


section \<open>The chat service\<close>

text \<open>
  C1. Starting from the empty conversation, a call of \<open>chat\<close> that returns leaves exactly
  two messages: the human message with the user input unchanged, then one assistant
  message, whose content is the value returned. The gateway's answers are assistant
  messages, as the answers of a chat model are.
\<close>

theorem chat_round_trip:
  assumes ok: "chat llm ChatbotService_init user_input = (Inr reply, svc)"
    and ai: "\<forall>ms r. llm ms = Inr r \<longrightarrow> is_AIMessage r"
  shows "messages (state svc) = [HumanMessage user_input, AIMessage reply]"
proof -
  obtain r where r: "llm [HumanMessage user_input] = Inr r"
    using ok
    by (cases "llm [HumanMessage user_input]")
       (auto simp: chat_def app_invoke_def chatbot_node_def ChatbotService_init_def)
  from ai r have "is_AIMessage r" by blast
  then obtain a where a: "r = AIMessage a"
    by (cases r) auto
  from ok r a show ?thesis
    by (auto simp: chat_def app_invoke_def chatbot_node_def ChatbotService_init_def)
qed

theorem chat_round_trip_witness:
  "chat (\<lambda>ms. Inr (AIMessage ''4'')) ChatbotService_init ''2+2?''
     = (Inr ''4'', \<lparr>state = \<lparr>messages = [HumanMessage ''2+2?'', AIMessage ''4'']\<rparr>\<rparr>)
   \<and> messages (state \<lparr>state = \<lparr>messages = [HumanMessage ''2+2?'', AIMessage ''4'']\<rparr>\<rparr>)
     = [HumanMessage ''2+2?'', AIMessage ''4'']"
proof -
  have run: "chat (\<lambda>ms. Inr (AIMessage ''4'')) ChatbotService_init ''2+2?''
     = (Inr ''4'', \<lparr>state = \<lparr>messages = [HumanMessage ''2+2?'', AIMessage ''4'']\<rparr>\<rparr>)"
    by (simp add: chat_def app_invoke_def chatbot_node_def ChatbotService_init_def)
  have ai: "\<forall>ms r. (\<lambda>ms. Inr (AIMessage ''4'')) ms = (Inr r :: exn + message) \<longrightarrow> is_AIMessage r"
    by auto
  from chat_round_trip [OF run ai] run show ?thesis by blast
qed

text \<open>
  C6. When the model call of the generation step raises, the step appends nothing: the
  message list is as it was before the step, and the exception reaches the caller. This
  holds for the wired node \<open>chatbot_node\<close>, for \<open>generate_node\<close>, and through \<open>chat\<close>, where
  the conversation then ends with the human message just appended.
\<close>

theorem failed_generation_appends_nothing:
  "(llm (messages st) = Inl e \<longrightarrow> chatbot_node llm st = (Inl e, st))
   \<and> (messages st \<noteq> [] \<and> generation_chain (content (last (messages st))) = Inl e
        \<longrightarrow> generate_node generation_chain st = (Inl e, st))
   \<and> (llm (messages (state self) @ [HumanMessage user_input]) = Inl e
        \<longrightarrow> chat llm self user_input
            = (Inl e, self\<lparr>state := (state self)\<lparr>messages := messages (state self) @ [HumanMessage user_input]\<rparr>\<rparr>))"
  by (simp add: chatbot_node_def generate_node_def chat_def app_invoke_def)

theorem failed_generation_appends_nothing_witness:
  "chatbot_node (\<lambda>ms. Inl (OtherError ''quota'')) \<lparr>messages = [HumanMessage ''hi'']\<rparr>
     = (Inl (OtherError ''quota''), \<lparr>messages = [HumanMessage ''hi'']\<rparr>)
   \<and> generate_node (\<lambda>q. Inl (OtherError ''quota'')) \<lparr>messages = [HumanMessage ''hi'']\<rparr>
     = (Inl (OtherError ''quota''), \<lparr>messages = [HumanMessage ''hi'']\<rparr>)
   \<and> chat (\<lambda>ms. Inl (OtherError ''quota'')) ChatbotService_init ''hi''
     = (Inl (OtherError ''quota''), \<lparr>state = \<lparr>messages = [HumanMessage ''hi'']\<rparr>\<rparr>)"
  using failed_generation_appends_nothing
    [of "\<lambda>ms. Inl (OtherError ''quota'')" "\<lparr>messages = [HumanMessage ''hi'']\<rparr>" "OtherError ''quota''"
        "\<lambda>q. Inl (OtherError ''quota'')" ChatbotService_init "''hi''"]
  by (simp add: ChatbotService_init_def)


section \<open>The model gateway\<close>

text \<open>
  C4. When the upper-cased provider name is none of OPENAI, BEDROCK, GEMINI, the
  construction \<open>initialize_llm\<close> raises: \<open>NotImplementedError\<close> for SLIP, \<open>ValueError\<close> for
  every other name. No client is returned, so there is nothing to call \<open>invoke\<close> on.
\<close>

theorem initialize_llm_unsupported:
  assumes "upper (name cfg) \<notin> {''OPENAI'', ''BEDROCK'', ''GEMINI''}"
  shows "initialize_llm upper cfg =
           Inl (if upper (name cfg) = ''SLIP''
                then NotImplementedError ''SLIP client not implemented yet.''
                else ValueError (''Unsupported LLM client: '' @ upper (name cfg)))
         \<and> (\<forall>client. initialize_llm upper cfg \<noteq> Inr client)"
  using assms by (simp add: initialize_llm_def Let_def)

theorem initialize_llm_unsupported_witness:
  "ascii_upper (name \<lparr>name = ''foo'', openai = None, bedrock = None, gemini = None\<rparr>)
      \<notin> {''OPENAI'', ''BEDROCK'', ''GEMINI''}
   \<and> initialize_llm ascii_upper \<lparr>name = ''foo'', openai = None, bedrock = None, gemini = None\<rparr>
      = Inl (ValueError ''Unsupported LLM client: FOO'')
   \<and> ascii_upper (name \<lparr>name = ''Slip'', openai = None, bedrock = None, gemini = None\<rparr>)
      \<notin> {''OPENAI'', ''BEDROCK'', ''GEMINI''}
   \<and> initialize_llm ascii_upper \<lparr>name = ''Slip'', openai = None, bedrock = None, gemini = None\<rparr>
      = Inl (NotImplementedError ''SLIP client not implemented yet.'')"
proof -
  have h1: "ascii_upper (name \<lparr>name = ''foo'', openai = None, bedrock = None, gemini = None\<rparr>)
      \<notin> {''OPENAI'', ''BEDROCK'', ''GEMINI''}"
    by (simp add: ascii_upper_examples)
  have h2: "ascii_upper (name \<lparr>name = ''Slip'', openai = None, bedrock = None, gemini = None\<rparr>)
      \<notin> {''OPENAI'', ''BEDROCK'', ''GEMINI''}"
    by (simp add: ascii_upper_examples)
  from initialize_llm_unsupported [of ascii_upper "\<lparr>name = ''foo'', openai = None, bedrock = None, gemini = None\<rparr>"]
       initialize_llm_unsupported [of ascii_upper "\<lparr>name = ''Slip'', openai = None, bedrock = None, gemini = None\<rparr>"]
       h1 h2
  show ?thesis by (simp add: ascii_upper_examples)
qed


section \<open>The object store helper\<close>

text \<open>
  C5. \<open>file_exists_in_s3\<close> returns \<open>False\<close> exactly when \<open>head_object\<close> raises the client
  error with code 404; every other exception of \<open>head_object\<close> is raised again as it is,
  and a call that returns gives \<open>True\<close>.
\<close>

theorem file_exists_in_s3_not_found:
  "(file_exists_in_s3 head_object self key = Inr False
      \<longleftrightarrow> head_object (bucket_name self) key = Inl (ClientError ''404''))
   \<and> (\<forall>e. head_object (bucket_name self) key = Inl e \<and> e \<noteq> ClientError ''404''
        \<longrightarrow> file_exists_in_s3 head_object self key = Inl e)
   \<and> (head_object (bucket_name self) key = Inr () \<longrightarrow> file_exists_in_s3 head_object self key = Inr True)"
  by (auto simp: file_exists_in_s3_def split: sum.splits exn.splits)

theorem file_exists_in_s3_not_found_witness:
  "file_exists_in_s3 (\<lambda>b k. Inl (ClientError ''404'')) \<lparr>bucket_name = ''b''\<rparr> ''k'' = Inr False
   \<and> file_exists_in_s3 (\<lambda>b k. Inl (ClientError ''403'')) \<lparr>bucket_name = ''b''\<rparr> ''k'' = Inl (ClientError ''403'')
   \<and> file_exists_in_s3 (\<lambda>b k. Inl (OtherError ''EndpointConnectionError'')) \<lparr>bucket_name = ''b''\<rparr> ''k''
       = Inl (OtherError ''EndpointConnectionError'')
   \<and> file_exists_in_s3 (\<lambda>b k. Inr ()) \<lparr>bucket_name = ''b''\<rparr> ''k'' = Inr True"
  using file_exists_in_s3_not_found [of "\<lambda>b k. Inl (ClientError ''404'')" "\<lparr>bucket_name = ''b''\<rparr>" "''k''"]
        file_exists_in_s3_not_found [of "\<lambda>b k. Inl (ClientError ''403'')" "\<lparr>bucket_name = ''b''\<rparr>" "''k''"]
        file_exists_in_s3_not_found [of "\<lambda>b k. Inl (OtherError ''EndpointConnectionError'')" "\<lparr>bucket_name = ''b''\<rparr>" "''k''"]
        file_exists_in_s3_not_found [of "\<lambda>b k. Inr ()" "\<lparr>bucket_name = ''b''\<rparr>" "''k''"]
  by simp

text \<open>
  C9. When \<open>upload_file\<close> raises \<open>FileNotFoundError\<close> (the local file is missing),
  \<open>upload_file_to_s3\<close> does not raise and returns \<open>False\<close>; when the upload returns, it
  returns \<open>True\<close>.
\<close>

theorem upload_file_to_s3_missing_file:
  "(upload_file local_file_path (bucket_name self) key = Inl FileNotFoundError
      \<longrightarrow> upload_file_to_s3 upload_file self key local_file_path = Inr False)
   \<and> (upload_file local_file_path (bucket_name self) key = Inr ()
      \<longrightarrow> upload_file_to_s3 upload_file self key local_file_path = Inr True)"
  by (simp add: upload_file_to_s3_def)

theorem upload_file_to_s3_missing_file_witness:
  "upload_file_to_s3 (\<lambda>f b k. Inl FileNotFoundError) \<lparr>bucket_name = ''b''\<rparr> ''k'' ''missing.txt'' = Inr False
   \<and> upload_file_to_s3 (\<lambda>f b k. Inr ()) \<lparr>bucket_name = ''b''\<rparr> ''k'' ''there.txt'' = Inr True"
  using upload_file_to_s3_missing_file [of "\<lambda>f b k. Inl FileNotFoundError" "''missing.txt''" "\<lparr>bucket_name = ''b''\<rparr>" "''k''"]
        upload_file_to_s3_missing_file [of "\<lambda>f b k. Inr ()" "''there.txt''" "\<lparr>bucket_name = ''b''\<rparr>" "''k''"]
  by simp

text \<open>
  C7. \<open>list_files_with_ext\<close> returns, in the order of the listing, exactly the keys listed
  under the prefix whose lower-cased key ends with the lower-cased form of some extension
  of the list; with the extension list absent or empty it returns all the keys listed.
\<close>

theorem list_files_with_ext_filter:
  "list_files_with_ext paginate self pfx extensions =
     (if extensions = None \<or> extensions = Some []
      then concat (map page_contents (paginate (bucket_name self) pfx))
      else filter (\<lambda>k. \<exists>ext \<in> set (the extensions). suffix (str_lower ext) (str_lower k))
             (concat (map page_contents (paginate (bucket_name self) pfx))))"
proof (cases "extensions = None \<or> extensions = Some []")
  case True
  then show ?thesis
    by (simp add: list_files_with_ext_def foldl_pages)
next
  case False
  then obtain e es where ext: "extensions = Some (e # es)"
    by (cases extensions; cases "the extensions") auto
  show ?thesis
    unfolding ext list_files_with_ext_def
    by (simp add: foldl_pages filter_concat endswith_def list_ex_iff comp_def)
qed

theorem list_files_with_ext_filter_witness:
  "list_files_with_ext (\<lambda>b p. [Some [''a.txt'', ''b.json''], None, Some [''c.TXT'']])
      \<lparr>bucket_name = ''b''\<rparr> ''p'' (Some [''.txt'']) = [''a.txt'', ''c.TXT'']
   \<and> list_files_with_ext (\<lambda>b p. [Some [''a.txt'', ''b.json''], None, Some [''c.TXT'']])
      \<lparr>bucket_name = ''b''\<rparr> ''p'' None = [''a.txt'', ''b.json'', ''c.TXT'']
   \<and> list_files_with_ext (\<lambda>b p. [Some [''a.txt'', ''b.json''], None, Some [''c.TXT'']])
      \<lparr>bucket_name = ''b''\<rparr> ''p'' (Some []) = [''a.txt'', ''b.json'', ''c.TXT'']"
  by (simp add: list_files_with_ext_filter page_contents_def str_lower_ascii_examples
      suffix_to_prefix)

text \<open>
  C10. \<open>copy_local_dir_to_s3\<close> selects the local files by a suffix test on the path as it
  is, with no case folding: when it returns, the paths it reports as uploaded are exactly
  those of the walked files that end with one of the extensions as written (all the walked
  files when the extension list is absent or empty). \<open>list_files_with_ext\<close> with the same
  extensions compares the lower-cased key with the lower-cased extension. So with the
  extensions \<open>[".txt"]\<close> the file \<open>c.TXT\<close> is not uploaded, while the listing keeps the
  key \<open>c.TXT\<close>.
\<close>

theorem copy_local_dir_case_sensitive:
  assumes "copy_local_dir_to_s3 walk upload_file self src_dir dest_prefix extensions = Inr m"
  shows "dom m =
           set (map (\<lambda>f. path_join src_dir (str_replace (src_dir @ ''/'') [] f))
             (if extensions = None \<or> extensions = Some []
              then concat (map (\<lambda>(dp, dn, fn). map (path_join dp) fn) walk)
              else filter (\<lambda>f. \<exists>ext \<in> set (the extensions). suffix ext f)
                     (concat (map (\<lambda>(dp, dn, fn). map (path_join dp) fn) walk))))
         \<and> list_files_with_ext paginate self pfx extensions =
             (if extensions = None \<or> extensions = Some []
              then concat (map page_contents (paginate (bucket_name self) pfx))
              else filter (\<lambda>k. \<exists>ext \<in> set (the extensions). suffix (str_lower ext) (str_lower k))
                     (concat (map page_contents (paginate (bucket_name self) pfx))))"
proof
  from assms have "dom m = set (map (path_join src_dir) (tgt_files walk src_dir extensions))"
    unfolding copy_local_dir_to_s3_def by (simp add: upload_each_dom)
  then show "dom m =
           set (map (\<lambda>f. path_join src_dir (str_replace (src_dir @ ''/'') [] f))
             (if extensions = None \<or> extensions = Some []
              then concat (map (\<lambda>(dp, dn, fn). map (path_join dp) fn) walk)
              else filter (\<lambda>f. \<exists>ext \<in> set (the extensions). suffix ext f)
                     (concat (map (\<lambda>(dp, dn, fn). map (path_join dp) fn) walk))))"
    unfolding tgt_files_filter by (simp add: comp_def)
next
  show "list_files_with_ext paginate self pfx extensions =
             (if extensions = None \<or> extensions = Some []
              then concat (map page_contents (paginate (bucket_name self) pfx))
              else filter (\<lambda>k. \<exists>ext \<in> set (the extensions). suffix (str_lower ext) (str_lower k))
                     (concat (map page_contents (paginate (bucket_name self) pfx))))"
    by (rule listing_filter)
qed

theorem copy_local_dir_case_sensitive_witness:
  "copy_local_dir_to_s3 [(''d'', [], [''a.txt'', ''c.TXT'']), (''d/sub'', [], [''e.txt''])]
      (\<lambda>f b k. Inr ()) \<lparr>bucket_name = ''b''\<rparr> ''d'' ''p'' (Some [''.txt''])
     = Inr [''d/a.txt'' \<mapsto> ''s3://b/p/a.txt'', ''d/sub/e.txt'' \<mapsto> ''s3://b/p/sub/e.txt'']
   \<and> dom [''d/a.txt'' \<mapsto> ''s3://b/p/a.txt'', ''d/sub/e.txt'' \<mapsto> ''s3://b/p/sub/e.txt'']
       = {''d/a.txt'', ''d/sub/e.txt''}
   \<and> list_files_with_ext (\<lambda>b p. [Some [''a.txt'', ''c.TXT'']]) \<lparr>bucket_name = ''b''\<rparr> ''p''
        (Some [''.txt'']) = [''a.txt'', ''c.TXT'']"
proof -
  have run: "copy_local_dir_to_s3 [(''d'', [], [''a.txt'', ''c.TXT'']), (''d/sub'', [], [''e.txt''])]
      (\<lambda>f b k. Inr ()) \<lparr>bucket_name = ''b''\<rparr> ''d'' ''p'' (Some [''.txt''])
     = Inr [''d/a.txt'' \<mapsto> ''s3://b/p/a.txt'', ''d/sub/e.txt'' \<mapsto> ''s3://b/p/sub/e.txt'']"
    by (simp add: copy_local_dir_to_s3_def tgt_files_def endswith_def path_join_def
        str_replace_def suffix_to_prefix)
  from copy_local_dir_case_sensitive [OF run, of "\<lambda>b p. [Some [''a.txt'', ''c.TXT'']]" "''p''"] run
  show ?thesis
    by (simp add: path_join_def str_replace_def suffix_to_prefix page_contents_def
        str_lower_ascii_examples)
qed


section \<open>The prompt normalizer\<close>

text \<open>
  C2. On the input a, backslash, b, tab, tab, c, newline, newline, space, d with
  \<open>preserve_newlines\<close> the result is not \<open>"ab c\nd"\<close>.
\<close>

theorem clean_prompt_example_counterexample:
  "clean_prompt (''a'' @ [BACKSLASH] @ ''b'' @ [TAB, TAB] @ ''c\<newline>\<newline> d'') True True True
     \<noteq> ''ab c\<newline>d''"
  by (simp add: clean_prompt_def str_replace_def re_sub_whitespace_def strip_def lstrip_def rstrip_def is_space_def)

text \<open>
  C2, as the code has it: the result is \<open>"ab c\n\n d"\<close>. The backslash is removed and
  the two tabs become one space; both newlines are kept, and the space after them is
  kept as one space.
\<close>

theorem clean_prompt_example:
  "clean_prompt (''a'' @ [BACKSLASH] @ ''b'' @ [TAB, TAB] @ ''c\<newline>\<newline> d'') True True True
     = ''ab c\<newline>\<newline> d''"
  by (simp add: clean_prompt_def str_replace_def re_sub_whitespace_def strip_def lstrip_def rstrip_def is_space_def)

text \<open>
  C3. With \<open>collapse_whitespace\<close> and \<open>preserve_newlines\<close> the output does not always
  have as many newlines as the input with its runs of tabs and spaces collapsed: the final
  \<open>strip\<close> removes the newline that ends the input \<open>"a\n"\<close>, and the text
  \<open><NEWLINE>\<close> written in the input comes out as a newline.
\<close>

theorem clean_prompt_newlines_counterexample:
  "count_newlines (clean_prompt ''a\<newline>'' True True True)
     \<noteq> count_newlines (collapse_tabs_spaces ''a\<newline>'')
   \<and> count_newlines (clean_prompt ''a<NEWLINE>b'' True True True)
     \<noteq> count_newlines (collapse_tabs_spaces ''a<NEWLINE>b'')"
  by (simp add: clean_prompt_def str_replace_def re_sub_whitespace_def strip_def lstrip_def
      rstrip_def is_space_def count_newlines_def collapse_tabs_spaces_def)

text \<open>
  C3, as the code has it: when the input, after the removal of the backslashes if that is
  asked for, does not contain the text \<open><NEWLINE>\<close>, the output of \<open>clean_prompt\<close> with
  \<open>collapse_whitespace\<close> and \<open>preserve_newlines\<close> has as many newlines as that input with
  its runs of tabs and spaces collapsed and its leading and trailing whitespace stripped.
\<close>

theorem clean_prompt_newlines:
  assumes "\<not> sublist ''<NEWLINE>'' (if rb then str_replace [BACKSLASH] [] x else x)"
  shows "count_newlines (clean_prompt x rb True True) =
         count_newlines (strip (collapse_tabs_spaces (if rb then str_replace [BACKSLASH] [] x else x)))"
proof -
  define u where "u = (if rb then str_replace [BACKSLASH] [] x else x)"
  define t where "t = str_replace [TAB] [SPC] u"
  from assms have "\<not> sublist PLACEHOLDER u" unfolding u_def .
  then have "\<not> sublist PLACEHOLDER t" unfolding t_def by (rule no_placeholder_tabs)
  then have r: "replace_from PLACEHOLDER [NL] t = t" by (rule replace_from_no_occurrence)
  have "clean_prompt x rb True True = strip (squeeze sp_not_nl (replace_from PLACEHOLDER [NL] t))"
    unfolding t_def u_def by (simp only: clean_prompt_nf if_True)
  then have "count_newlines (clean_prompt x rb True True) = count_newlines (strip (squeeze sp_not_nl t))"
    unfolding r by simp
  also have "\<dots> = count_newlines (strip t)"
    by (rule count_newlines_strip_squeeze [OF sp_not_nl_space not_sp_not_nl_NL])
  also have "\<dots> = count_newlines (strip u)"
    unfolding t_def by (rule count_newlines_strip_tabs)
  also have "\<dots> = count_newlines (strip (collapse_tabs_spaces u))"
    unfolding collapse_tabs_spaces_def
    by (rule count_newlines_strip_squeeze [OF tab_spc_space, symmetric]) simp
  finally show ?thesis unfolding u_def .
qed

theorem clean_prompt_newlines_witness:
  "\<not> sublist ''<NEWLINE>'' (''\<newline> a'' @ [TAB, TAB] @ ''b \<newline>\<newline> c \<newline>'')
   \<and> count_newlines (clean_prompt (''\<newline> a'' @ [TAB, TAB] @ ''b \<newline>\<newline> c \<newline>'') False True True) = 2
   \<and> count_newlines (strip (collapse_tabs_spaces (''\<newline> a'' @ [TAB, TAB] @ ''b \<newline>\<newline> c \<newline>''))) = 2"
proof -
  have h: "\<not> sublist ''<NEWLINE>'' (''\<newline> a'' @ [TAB, TAB] @ ''b \<newline>\<newline> c \<newline>'')"
    by (simp add: sublist_Cons_right)
  have c: "count_newlines (strip (collapse_tabs_spaces (''\<newline> a'' @ [TAB, TAB] @ ''b \<newline>\<newline> c \<newline>''))) = 2"
    by (simp add: collapse_tabs_spaces_def strip_def lstrip_def rstrip_def is_space_def
        count_newlines_def)
  from clean_prompt_newlines [of False "''\<newline> a'' @ [TAB, TAB] @ ''b \<newline>\<newline> c \<newline>''"] h c
  show ?thesis by simp
qed

text \<open>
  C8. \<open>clean_prompt\<close> is idempotent: for every input and every setting of the three
  flags, cleaning the output again with the same flags returns it unchanged.
\<close>

theorem clean_prompt_idempotent:
  "clean_prompt (clean_prompt x rb cw pn) rb cw pn = clean_prompt x rb cw pn"
  by (rule clean_prompt_fixed [OF refl])

end
